theory Spec2Isabelle
  imports Main "HOL-Library.Word" "HOL-Library.Sublist"
begin

unbundle bit_operations_syntax

section \<open>CardMaker: the PNG character-card codec\<close>

text \<open>
  The development embeds \<^verbatim>\<open>src/lib/crc32.ts\<close> and the PNG card module
  (\<^verbatim>\<open>extractCardFromPng\<close>, \<^verbatim>\<open>embedCardIntoPng\<close> and their helpers).
  A \<^verbatim>\<open>Uint8Array\<close> is a list of 8-bit words, a JavaScript string is the list of
  its UTF-16 code units, a JavaScript number that holds a length or an offset is a
  natural number, and the 32-bit values that the bit operators of JavaScript work on
  are 32-bit words. A thrown exception is the left injection of a sum.
\<close>

type_synonym byte = "8 word"
type_synonym bytes = "byte list"
type_synonym u32 = "32 word"
type_synonym jsstring = "16 word list"

text \<open>An ASCII string literal of the source, as a JavaScript string.\<close>

definition lit :: "string \<Rightarrow> jsstring" where
  "lit s = map (\<lambda>c. of_nat (of_char c)) s"

subsection \<open>crc32.ts\<close>

text \<open>
  One turn of the inner loop of \<^verbatim>\<open>makeCrc32Table\<close>:
  \<^verbatim>\<open>crc = crc & 1 ? (0xedb88320 ^ (crc >>> 1)) : (crc >>> 1)\<close>.
\<close>

definition crc_bit_step :: "u32 \<Rightarrow> u32" where
  "crc_bit_step crc =
     (if crc AND 1 \<noteq> 0 then 0xedb88320 XOR drop_bit 1 crc else drop_bit 1 crc)"

primrec crc_bit_loop :: "nat \<Rightarrow> u32 \<Rightarrow> u32" where
  "crc_bit_loop 0 crc = crc"
| "crc_bit_loop (Suc j) crc = crc_bit_loop j (crc_bit_step crc)"

definition makeCrc32Table :: "u32 list" where
  "makeCrc32Table = map (\<lambda>i. crc_bit_loop 8 (of_nat i)) [0..<256]"

definition CRC32_TABLE :: "u32 list" where
  "CRC32_TABLE = makeCrc32Table"

text \<open>The body of the loop of \<^verbatim>\<open>crc32\<close>; the index is always below 256.\<close>

definition crc32_step :: "u32 \<Rightarrow> byte \<Rightarrow> u32" where
  "crc32_step crc b = CRC32_TABLE ! unat ((crc XOR ucast b) AND 0xff) XOR drop_bit 8 crc"

definition crc32 :: "bytes \<Rightarrow> u32" where
  "crc32 bs = foldl crc32_step 0xffffffff bs XOR 0xffffffff"

text \<open>
  The reference definition the design names: reflected CRC-32, polynomial
  \<open>0xEDB88320\<close>, initial value \<open>0xFFFFFFFF\<close>, each byte XORed into the low end of
  the register and followed by eight shift steps, one complement at the end.
\<close>

definition crc32_reference_byte :: "u32 \<Rightarrow> byte \<Rightarrow> u32" where
  "crc32_reference_byte crc b = crc_bit_loop 8 (crc XOR ucast b)"

definition crc32_reference :: "bytes \<Rightarrow> u32" where
  "crc32_reference bs = foldl crc32_reference_byte 0xffffffff bs XOR 0xffffffff"

subsection \<open>Platform functions\<close>

text \<open>
  The module calls five functions of the JavaScript platform. They are modelled after
  the standards that define them: \<^verbatim>\<open>TextEncoder\<close> and \<^verbatim>\<open>TextDecoder\<close> after the
  WHATWG Encoding Standard, \<^verbatim>\<open>btoa\<close> and \<^verbatim>\<open>atob\<close> after the HTML Standard and
  the forgiving-base64 algorithms of the WHATWG Infra Standard. Code points and
  character codes are natural numbers inside these models.
\<close>

paragraph \<open>Strings and scalar values\<close>

text \<open>
  Reading a string as scalar values (the conversion to a \<^verbatim>\<open>USVString\<close> that
  \<^verbatim>\<open>TextEncoder.encode\<close> starts with): a surrogate pair is one code point, a surrogate
  without its partner becomes U+FFFD.
\<close>

definition high_surrogate :: "16 word \<Rightarrow> bool" where
  "high_surrogate u = (0xD800 \<le> unat u \<and> unat u \<le> 0xDBFF)"

definition low_surrogate :: "16 word \<Rightarrow> bool" where
  "low_surrogate u = (0xDC00 \<le> unat u \<and> unat u \<le> 0xDFFF)"

fun to_scalars :: "jsstring \<Rightarrow> nat list" where
  "to_scalars [] = []"
| "to_scalars [u] = (if high_surrogate u \<or> low_surrogate u then [0xFFFD] else [unat u])"
| "to_scalars (u # v # vs) =
     (if high_surrogate u then
        (if low_surrogate v
         then (0x10000 + (unat u - 0xD800) * 0x400 + (unat v - 0xDC00)) # to_scalars vs
         else 0xFFFD # to_scalars (v # vs))
      else if low_surrogate u then 0xFFFD # to_scalars (v # vs)
      else unat u # to_scalars (v # vs))"

text \<open>Writing code points as UTF-16 code units, as a decoder does for its result.\<close>

definition utf16_units :: "nat \<Rightarrow> jsstring" where
  "utf16_units cp =
     (if cp < 0x10000 then [of_nat cp]
      else [of_nat (0xD800 + (cp - 0x10000) div 0x400),
            of_nat (0xDC00 + (cp - 0x10000) mod 0x400)])"

definition from_scalars :: "nat list \<Rightarrow> jsstring" where
  "from_scalars cps = concat (map utf16_units cps)"

text \<open>A string without unpaired surrogates: the strings that UTF-8 can represent.\<close>

fun well_formed :: "jsstring \<Rightarrow> bool" where
  "well_formed [] = True"
| "well_formed [u] = (\<not> high_surrogate u \<and> \<not> low_surrogate u)"
| "well_formed (u # v # vs) =
     (if high_surrogate u then low_surrogate v \<and> well_formed vs
      else \<not> low_surrogate u \<and> well_formed (v # vs))"

paragraph \<open>\<^verbatim>\<open>new TextEncoder().encode(s)\<close>\<close>

definition utf8_bytes :: "nat \<Rightarrow> bytes" where
  "utf8_bytes cp =
     (if cp < 0x80 then [of_nat cp]
      else if cp < 0x800 then [of_nat (0xC0 + cp div 0x40), of_nat (0x80 + cp mod 0x40)]
      else if cp < 0x10000 then
        [of_nat (0xE0 + cp div 0x1000), of_nat (0x80 + cp div 0x40 mod 0x40),
         of_nat (0x80 + cp mod 0x40)]
      else
        [of_nat (0xF0 + cp div 0x40000), of_nat (0x80 + cp div 0x1000 mod 0x40),
         of_nat (0x80 + cp div 0x40 mod 0x40), of_nat (0x80 + cp mod 0x40)])"

definition TextEncoder_encode :: "jsstring \<Rightarrow> bytes" where
  "TextEncoder_encode s = concat (map utf8_bytes (to_scalars s))"

paragraph \<open>\<^verbatim>\<open>new TextDecoder("utf-8", {fatal}).decode(bytes)\<close>\<close>

text \<open>
  The UTF-8 decoder of the Encoding Standard, with its state (code point, bytes seen,
  bytes needed, lower and upper boundary) as arguments. Every item of the result is a
  code point or \<open>None\<close>, an error. A continuation byte outside the boundaries is an
  error and is then read again as the first byte of a sequence.
\<close>

function utf8_decoder :: "nat \<Rightarrow> nat \<Rightarrow> nat \<Rightarrow> nat \<Rightarrow> nat \<Rightarrow> bytes \<Rightarrow> nat option list" where
  "utf8_decoder cp seen needed lower upper [] = (if needed \<noteq> 0 then [None] else [])"
| "utf8_decoder cp seen needed lower upper (b # bs) =
     (if needed = 0 then
        (if unat b \<le> 0x7F then Some (unat b) # utf8_decoder 0 0 0 0x80 0xBF bs
         else if 0xC2 \<le> unat b \<and> unat b \<le> 0xDF then
           utf8_decoder (unat b mod 0x20) 0 1 0x80 0xBF bs
         else if 0xE0 \<le> unat b \<and> unat b \<le> 0xEF then
           utf8_decoder (unat b mod 0x10) 0 2
             (if unat b = 0xE0 then 0xA0 else 0x80) (if unat b = 0xED then 0x9F else 0xBF) bs
         else if 0xF0 \<le> unat b \<and> unat b \<le> 0xF4 then
           utf8_decoder (unat b mod 8) 0 3
             (if unat b = 0xF0 then 0x90 else 0x80) (if unat b = 0xF4 then 0x8F else 0xBF) bs
         else None # utf8_decoder 0 0 0 0x80 0xBF bs)
      else if \<not> (lower \<le> unat b \<and> unat b \<le> upper) then
        None # utf8_decoder 0 0 0 0x80 0xBF (b # bs)
      else if seen + 1 \<noteq> needed then
        utf8_decoder (cp * 0x40 + unat b mod 0x40) (seen + 1) needed 0x80 0xBF bs
      else Some (cp * 0x40 + unat b mod 0x40) # utf8_decoder 0 0 0 0x80 0xBF bs)"
  by pat_completeness auto
termination
  by (relation "measure (\<lambda>(cp, seen, needed, lower, upper, bs).
        2 * length bs + (if needed = 0 then 0 else 1))") auto

text \<open>
  Serialising the decoder's output: with \<^verbatim>\<open>ignoreBOM\<close> left at its default, a first
  code point U+FEFF is dropped.
\<close>

definition serialize_output :: "nat list \<Rightarrow> jsstring" where
  "serialize_output cps =
     from_scalars (case cps of [] \<Rightarrow> [] | c # cs \<Rightarrow> if c = 0xFEFF then cs else c # cs)"

text \<open>
  In fatal mode an error throws a \<^verbatim>\<open>TypeError\<close> (the result \<open>None\<close>); otherwise the
  error becomes U+FFFD.
\<close>

definition TextDecoder_utf8 :: "bool \<Rightarrow> bytes \<Rightarrow> jsstring option" where
  "TextDecoder_utf8 fatal bs =
     (let items = utf8_decoder 0 0 0 0x80 0xBF bs in
      if fatal \<and> None \<in> set items then None
      else Some (serialize_output (map (\<lambda>i. case i of None \<Rightarrow> 0xFFFD | Some c \<Rightarrow> c) items)))"

paragraph \<open>\<^verbatim>\<open>new TextDecoder("ascii").decode(bytes)\<close>\<close>

text \<open>
  The label \<^verbatim>\<open>"ascii"\<close> names the encoding windows-1252, a single-byte decoder
  that never fails: bytes below \<open>0x80\<close> and from \<open>0xA0\<close> on decode to the code point
  of the same number, the 32 bytes between through the index of the encoding.
\<close>

definition windows_1252_index :: "nat list" where
  "windows_1252_index =
     [0x20AC, 0x0081, 0x201A, 0x0192, 0x201E, 0x2026, 0x2020, 0x2021,
      0x02C6, 0x2030, 0x0160, 0x2039, 0x0152, 0x008D, 0x017D, 0x008F,
      0x0090, 0x2018, 0x2019, 0x201C, 0x201D, 0x2022, 0x2013, 0x2014,
      0x02DC, 0x2122, 0x0161, 0x203A, 0x0153, 0x009D, 0x017E, 0x0178]"

definition windows_1252 :: "byte \<Rightarrow> nat" where
  "windows_1252 b =
     (if 0x80 \<le> unat b \<and> unat b < 0xA0 then windows_1252_index ! (unat b - 0x80) else unat b)"

definition TextDecoder_ascii :: "bytes \<Rightarrow> jsstring" where
  "TextDecoder_ascii bs = map (\<lambda>b. of_nat (windows_1252 b)) bs"

paragraph \<open>\<^verbatim>\<open>btoa\<close> and \<^verbatim>\<open>atob\<close>\<close>

text \<open>The base64 alphabet: the character of a 6-bit value, and the value of a character.\<close>

definition b64_char :: "nat \<Rightarrow> nat" where
  "b64_char n =
     (if n < 26 then 65 + n else if n < 52 then 71 + n else if n < 62 then n - 4
      else if n = 62 then 43 else 47)"

definition b64_value :: "nat \<Rightarrow> nat option" where
  "b64_value c =
     (if 65 \<le> c \<and> c \<le> 90 then Some (c - 65)
      else if 97 \<le> c \<and> c \<le> 122 then Some (c - 71)
      else if 48 \<le> c \<and> c \<le> 57 then Some (c + 4)
      else if c = 43 then Some 62
      else if c = 47 then Some 63
      else None)"

text \<open>Three bytes become four characters; a last group of one or two bytes is padded.\<close>

fun b64_encode :: "nat list \<Rightarrow> nat list" where
  "b64_encode (x # y # z # r) =
     b64_char (x div 4) # b64_char (x mod 4 * 16 + y div 16) #
     b64_char (y mod 16 * 4 + z div 64) # b64_char (z mod 64) # b64_encode r"
| "b64_encode [x, y] =
     [b64_char (x div 4), b64_char (x mod 4 * 16 + y div 16), b64_char (y mod 16 * 4), 61]"
| "b64_encode [x] = [b64_char (x div 4), b64_char (x mod 4 * 16), 61, 61]"
| "b64_encode [] = []"

text \<open>
  \<^verbatim>\<open>btoa\<close> throws an \<^verbatim>\<open>InvalidCharacterError\<close> (the result \<open>None\<close>) when its
  argument has a code unit above \<open>0xFF\<close>.
\<close>

definition btoa :: "jsstring \<Rightarrow> jsstring option" where
  "btoa s =
     (if \<exists>u \<in> set s. 0xFF < unat u then None
      else Some (map of_nat (b64_encode (map unat s))))"

text \<open>
  Forgiving-base64 decode. Four 6-bit values become three bytes; of a last group of
  two or three values the spare low bits are discarded.
\<close>

fun b64_decode :: "nat list \<Rightarrow> nat list" where
  "b64_decode (a # b # c # d # r) =
     (a * 4 + b div 16) # (b mod 16 * 16 + c div 4) # (c mod 4 * 64 + d) # b64_decode r"
| "b64_decode [a, b, c] = [a * 4 + b div 16, b mod 16 * 16 + c div 4]"
| "b64_decode [a, b] = [a * 4 + b div 16]"
| "b64_decode [a] = []"
| "b64_decode [] = []"

definition ascii_whitespace :: "nat \<Rightarrow> bool" where
  "ascii_whitespace c = (c = 9 \<or> c = 10 \<or> c = 12 \<or> c = 13 \<or> c = 32)"

text \<open>A string whose length is a multiple of four loses one or two final \<open>=\<close> signs.\<close>

definition strip_padding :: "nat list \<Rightarrow> nat list" where
  "strip_padding d =
     (if length d mod 4 = 0 \<and> d \<noteq> [] \<and> last d = 61
      then (if butlast d \<noteq> [] \<and> last (butlast d) = 61 then butlast (butlast d) else butlast d)
      else d)"

text \<open>
  \<^verbatim>\<open>atob\<close> throws an \<^verbatim>\<open>InvalidCharacterError\<close> (the result \<open>None\<close>) when, after
  white space and padding are removed, the length is 1 modulo 4 or a character is
  outside the alphabet.
\<close>

definition atob :: "jsstring \<Rightarrow> jsstring option" where
  "atob s =
     (let d = strip_padding (filter (\<lambda>c. \<not> ascii_whitespace c) (map unat s)) in
      if length d mod 4 = 1 \<or> (\<exists>c \<in> set d. b64_value c = None) then None
      else Some (map of_nat (b64_decode (map (\<lambda>c. the (b64_value c)) d))))"

subsection \<open>The PNG card module: helpers\<close>

definition PNG_SIGNATURE :: bytes where
  "PNG_SIGNATURE = [137, 80, 78, 71, 13, 10, 26, 10]"

text \<open>
  \<^verbatim>\<open>buf[i]\<close> inside a bit operation: an index out of range reads \<^verbatim>\<open>undefined\<close>,
  which the operators take as 0.
\<close>

definition byte_at :: "bytes \<Rightarrow> nat \<Rightarrow> u32" where
  "byte_at buf i = (if i < length buf then ucast (buf ! i) else 0)"

definition readUint32BE :: "bytes \<Rightarrow> nat \<Rightarrow> u32" where
  "readUint32BE buf offset =
     push_bit 24 (byte_at buf offset) OR push_bit 16 (byte_at buf (offset + 1)) OR
     push_bit 8 (byte_at buf (offset + 2)) OR byte_at buf (offset + 3)"

text \<open>
  \<^verbatim>\<open>writeUint32BE\<close>: the shifts first reduce the number to 32 bits, so a value of
  \<open>2\<^sup>3\<^sup>2\<close> or more is written modulo \<open>2\<^sup>3\<^sup>2\<close>.
\<close>

definition writeUint32BE :: "nat \<Rightarrow> bytes" where
  "writeUint32BE v =
     [ucast (drop_bit 24 (of_nat v :: u32) AND 0xff),
      ucast (drop_bit 16 (of_nat v :: u32) AND 0xff),
      ucast (drop_bit 8 (of_nat v :: u32) AND 0xff),
      ucast ((of_nat v :: u32) AND 0xff)]"

definition concatBytes :: "bytes list \<Rightarrow> bytes" where
  "concatBytes parts = concat parts"

text \<open>\<^verbatim>\<open>a.slice(i, j)\<close> on a typed array, for \<open>0 \<le> i\<close> and \<open>0 \<le> j\<close>.\<close>

definition slice :: "'a list \<Rightarrow> nat \<Rightarrow> nat \<Rightarrow> 'a list" where
  "slice xs i j = take (j - i) (drop i xs)"

definition encodeAscii :: "jsstring \<Rightarrow> bytes" where
  "encodeAscii s = TextEncoder_encode s"

text \<open>
  \<^verbatim>\<open>bytesToBinaryString\<close> appends \<^verbatim>\<open>String.fromCharCode(...chunk)\<close> for
  successive pieces of \<open>0x2000\<close> bytes.
\<close>

function bytesToBinaryString_from :: "bytes \<Rightarrow> nat \<Rightarrow> jsstring" where
  "bytesToBinaryString_from bs i =
     (if i < length bs
      then map ucast (slice bs i (i + 0x2000)) @ bytesToBinaryString_from bs (i + 0x2000)
      else [])"
  by pat_completeness auto
termination
  by (relation "measure (\<lambda>(bs, i). length bs - i)") auto

definition bytesToBinaryString :: "bytes \<Rightarrow> jsstring" where
  "bytesToBinaryString bs = bytesToBinaryString_from bs 0"

definition base64EncodeUtf8 :: "jsstring \<Rightarrow> jsstring option" where
  "base64EncodeUtf8 s = btoa (bytesToBinaryString (TextEncoder_encode s))"

text \<open>\<open>None\<close>: \<^verbatim>\<open>atob\<close> or the fatal decoder has thrown.\<close>

definition base64DecodeUtf8 :: "jsstring \<Rightarrow> jsstring option" where
  "base64DecodeUtf8 b64 =
     (case atob b64 of
        None \<Rightarrow> None
      | Some binary \<Rightarrow> TextDecoder_utf8 True (map ucast binary))"

text \<open>\<^verbatim>\<open>indexOf\<close>: the first index of the value, or \<open>-1\<close>.\<close>

fun indexOf :: "'a list \<Rightarrow> 'a \<Rightarrow> int" where
  "indexOf [] v = -1"
| "indexOf (x # xs) v = (if x = v then 0 else (let r = indexOf xs v in if r < 0 then r else r + 1))"

record parsed_text =
  keyword :: jsstring
  textBytes :: bytes

text \<open>
  The keyword goes through a UTF-8 decoder that is not fatal, so it is always a string.
\<close>

definition parseTextChunkKeyword :: "bytes \<Rightarrow> parsed_text option" where
  "parseTextChunkKeyword chunkData =
     (let nullIndex = indexOf chunkData 0 in
      if nullIndex \<le> 0 then None
      else Some \<lparr>keyword = the (TextDecoder_utf8 False (slice chunkData 0 (nat nullIndex))),
                 textBytes = drop (nat nullIndex + 1) chunkData\<rparr>)"

subsection \<open>The PNG card module: extract and embed\<close>

text \<open>
  The exceptions of the module, under the names the design gives them:
  \<open>NotAPng\<close> is the \<^verbatim>\<open>Error\<close> thrown by the signature check of
  \<^verbatim>\<open>embedCardIntoPng\<close>, \<open>TruncatedPng\<close> the \<^verbatim>\<open>Error\<close> thrown when a chunk
  runs past the end of the buffer, \<open>DecodeError\<close> what \<^verbatim>\<open>atob\<close> or the fatal
  decoder throws inside \<^verbatim>\<open>base64DecodeUtf8\<close>, and \<open>EncodeError\<close> what
  \<^verbatim>\<open>btoa\<close> would throw inside \<^verbatim>\<open>base64EncodeUtf8\<close>.
\<close>

datatype error = NotAPng | TruncatedPng | DecodeError | EncodeError

record ExtractedPngCard =
  card_keyword :: jsstring
  jsonText :: jsstring

text \<open>
  \<^verbatim>\<open>for (let i = 0; i < 8; i++) if (pngBytes[i] !== PNG_SIGNATURE[i]) ...\<close>:
  an index past the end reads \<^verbatim>\<open>undefined\<close>, which differs from every byte.
\<close>

definition signature_mismatch :: "bytes \<Rightarrow> bool" where
  "signature_mismatch pngBytes =
     (\<exists>i \<in> set [0..<8]. \<not> (i < length pngBytes \<and> pngBytes ! i = PNG_SIGNATURE ! i))"

text \<open>
  The test of a chunk that both functions make: the type is \<^verbatim>\<open>"tEXt"\<close>, the payload
  parses, and the keyword is \<^verbatim>\<open>"chara"\<close> or \<^verbatim>\<open>"ccv3"\<close>.
\<close>

definition is_card_text :: "bytes \<Rightarrow> bytes \<Rightarrow> bool" where
  "is_card_text typeBytes chunkData =
     (TextDecoder_ascii typeBytes = lit ''tEXt'' \<and>
      (case parseTextChunkKeyword chunkData of
         None \<Rightarrow> False
       | Some parsed \<Rightarrow> keyword parsed = lit ''chara'' \<or> keyword parsed = lit ''ccv3''))"

text \<open>What \<^verbatim>\<open>extractCardFromPng\<close> does with a chunk that passed the test.\<close>

definition card_of_text :: "bytes \<Rightarrow> error + ExtractedPngCard option" where
  "card_of_text chunkData =
     (case parseTextChunkKeyword chunkData of
        None \<Rightarrow> Inr None
      | Some parsed \<Rightarrow>
          (case base64DecodeUtf8 (TextDecoder_ascii (textBytes parsed)) of
             None \<Rightarrow> Inl DecodeError
           | Some decoded \<Rightarrow>
               Inr (Some \<lparr>card_keyword = keyword parsed, jsonText = decoded\<rparr>)))"

function extract_loop :: "bytes \<Rightarrow> nat \<Rightarrow> error + ExtractedPngCard option" where
  "extract_loop pngBytes offset =
     (if offset + 12 \<le> length pngBytes then
        (let len = unat (readUint32BE pngBytes offset);
             type = slice pngBytes (offset + 4) (offset + 8);
             dataStart = offset + 8;
             dataEnd = dataStart + len;
             next = dataEnd + 4
         in if next > length pngBytes then Inr None
            else if is_card_text type (slice pngBytes dataStart dataEnd)
              then card_of_text (slice pngBytes dataStart dataEnd)
            else if TextDecoder_ascii type = lit ''IEND'' then Inr None
            else extract_loop pngBytes next)
      else Inr None)"
  by pat_completeness auto
termination
  by (relation "measure (\<lambda>(pngBytes, offset). length pngBytes - offset)") auto

definition extractCardFromPng :: "bytes \<Rightarrow> error + ExtractedPngCard option" where
  "extractCardFromPng pngBytes =
     (if length pngBytes < 8 then Inr None
      else if signature_mismatch pngBytes then Inr None
      else extract_loop pngBytes 8)"

definition buildTextChunk :: "jsstring \<Rightarrow> jsstring \<Rightarrow> bytes" where
  "buildTextChunk kw base64Payload =
     (let typeBytes = encodeAscii (lit ''tEXt'');
          data = concatBytes [encodeAscii kw, [0], encodeAscii base64Payload];
          lengthBytes = writeUint32BE (length data);
          crcBytes = writeUint32BE (unat (crc32 (concatBytes [typeBytes, data])))
      in concatBytes [lengthBytes, typeBytes, data, crcBytes])"

text \<open>
  The options of \<^verbatim>\<open>embedCardIntoPng\<close>: the argument and each field may be absent,
  and an absent flag counts as \<^verbatim>\<open>true\<close>.
\<close>

record embed_opts =
  writeCcv3 :: "bool option"
  writeChara :: "bool option"

definition opt_flag :: "embed_opts option \<Rightarrow> (embed_opts \<Rightarrow> bool option) \<Rightarrow> bool" where
  "opt_flag opts field =
     (case opts of None \<Rightarrow> True | Some r \<Rightarrow> (case field r of None \<Rightarrow> True | Some b \<Rightarrow> b))"

text \<open>The loop of \<^verbatim>\<open>embedCardIntoPng\<close>, with \<^verbatim>\<open>outParts\<close> as an argument.\<close>

function embed_loop :: "bytes \<Rightarrow> bytes list \<Rightarrow> nat \<Rightarrow> bytes list \<Rightarrow> error + bytes list" where
  "embed_loop pngBytes toInsert offset outParts =
     (if offset + 12 \<le> length pngBytes then
        (let len = unat (readUint32BE pngBytes offset);
             typeBytes = slice pngBytes (offset + 4) (offset + 8);
             dataStart = offset + 8;
             dataEnd = dataStart + len;
             chunkEnd = dataEnd + 4
         in if chunkEnd > length pngBytes then Inl TruncatedPng
            else
              (let chunkData = slice pngBytes dataStart dataEnd;
                   skip = is_card_text typeBytes chunkData;
                   isEnd = (TextDecoder_ascii typeBytes = lit ''IEND'');
                   outParts1 = (if isEnd then outParts @ toInsert else outParts);
                   outParts2 =
                     (if \<not> skip then
                        outParts1 @
                        [concatBytes [writeUint32BE (length chunkData), typeBytes, chunkData,
                           writeUint32BE (unat (crc32 (concatBytes [typeBytes, chunkData])))]]
                      else outParts1)
               in if isEnd then Inr outParts2
                  else embed_loop pngBytes toInsert chunkEnd outParts2))
      else Inr outParts)"
  by pat_completeness auto
termination
  by (relation "measure (\<lambda>(pngBytes, toInsert, offset, outParts). length pngBytes - offset)")
     auto

text \<open>The array \<^verbatim>\<open>outParts\<close> at the end of \<^verbatim>\<open>embedCardIntoPng\<close>.\<close>

definition embed_parts :: "bytes \<Rightarrow> jsstring \<Rightarrow> embed_opts option \<Rightarrow> error + bytes list" where
  "embed_parts pngBytes cardJsonText opts =
     (if signature_mismatch pngBytes then Inl NotAPng
      else
        (case base64EncodeUtf8 cardJsonText of
           None \<Rightarrow> Inl EncodeError
         | Some b64 \<Rightarrow>
             embed_loop pngBytes
               ((if opt_flag opts writeChara then [buildTextChunk (lit ''chara'') b64] else []) @
                (if opt_flag opts writeCcv3 then [buildTextChunk (lit ''ccv3'') b64] else []))
               8 [PNG_SIGNATURE]))"

definition embedCardIntoPng :: "bytes \<Rightarrow> jsstring \<Rightarrow> embed_opts option \<Rightarrow> error + bytes" where
  "embedCardIntoPng pngBytes cardJsonText opts =
     (case embed_parts pngBytes cardJsonText opts of
        Inl e \<Rightarrow> Inl e
      | Inr outParts \<Rightarrow> Inr (concatBytes outParts))"

subsection \<open>The chunk stream of a buffer\<close>

text \<open>
  Both \<^verbatim>\<open>extractCardFromPng\<close> and \<^verbatim>\<open>embedCardIntoPng\<close> walk the buffer in
  the same way; the design calls this the chunk stream walker. A chunk is its type
  tag, its payload and the four bytes of its CRC field; its length field holds the
  length of the payload. The walk ends after a chunk of type IEND, when fewer than 12
  bytes are left, or at a chunk whose declared length runs past the end of the buffer.
\<close>

record chunk =
  ctype :: bytes
  cdata :: bytes
  ccrc :: bytes

datatype walk_end = AtIEND | Exhausted | Overrun

function walk :: "bytes \<Rightarrow> nat \<Rightarrow> chunk list \<times> walk_end" where
  "walk pngBytes offset =
     (if offset + 12 \<le> length pngBytes then
        (let len = unat (readUint32BE pngBytes offset);
             dataEnd = offset + 8 + len;
             next = dataEnd + 4
         in if next > length pngBytes then ([], Overrun)
            else
              (let c = \<lparr>ctype = slice pngBytes (offset + 4) (offset + 8),
                        cdata = slice pngBytes (offset + 8) dataEnd,
                        ccrc = slice pngBytes dataEnd next\<rparr>
               in if TextDecoder_ascii (ctype c) = lit ''IEND'' then ([c], AtIEND)
                  else (case walk pngBytes next of (cs, e) \<Rightarrow> (c # cs, e))))
      else ([], Exhausted))"
  by pat_completeness auto
termination
  by (relation "measure (\<lambda>(pngBytes, offset). length pngBytes - offset)") auto

definition chunks :: "bytes \<Rightarrow> chunk list" where
  "chunks pngBytes = fst (walk pngBytes 8)"

definition stream_end :: "bytes \<Rightarrow> walk_end" where
  "stream_end pngBytes = snd (walk pngBytes 8)"

text \<open>The bytes of a chunk in a file.\<close>

definition chunk_bytes :: "chunk \<Rightarrow> bytes" where
  "chunk_bytes c = writeUint32BE (length (cdata c)) @ ctype c @ cdata c @ ccrc c"

text \<open>A chunk that carries a card: the test of the two functions, on a chunk.\<close>

definition is_card_chunk :: "chunk \<Rightarrow> bool" where
  "is_card_chunk c = is_card_text (ctype c) (cdata c)"

definition has_keyword :: "jsstring \<Rightarrow> chunk \<Rightarrow> bool" where
  "has_keyword kw c =
     (TextDecoder_ascii (ctype c) = lit ''tEXt'' \<and>
      (case parseTextChunkKeyword (cdata c) of
         None \<Rightarrow> False
       | Some parsed \<Rightarrow> keyword parsed = kw))"

definition crc_ok :: "chunk \<Rightarrow> bool" where
  "crc_ok c = (ccrc c = writeUint32BE (unat (crc32 (ctype c @ cdata c))))"

text \<open>The chunk with its CRC field computed afresh.\<close>

definition with_fresh_crc :: "chunk \<Rightarrow> chunk" where
  "with_fresh_crc c = c\<lparr>ccrc := writeUint32BE (unat (crc32 (ctype c @ cdata c)))\<rparr>"

subsection \<open>Auxiliary notions\<close>

text \<open>The value of four bytes read in big-endian order.\<close>

definition be32 :: "byte \<Rightarrow> byte \<Rightarrow> byte \<Rightarrow> byte \<Rightarrow> u32" where
  "be32 b0 b1 b2 b3 =
     push_bit 24 (ucast b0) OR push_bit 16 (ucast b1) OR push_bit 8 (ucast b2) OR ucast b3"

definition is_iend :: "chunk \<Rightarrow> bool" where
  "is_iend c = (TextDecoder_ascii (ctype c) = lit ''IEND'')"

text \<open>What the loop of \<^verbatim>\<open>extractCardFromPng\<close> returns, as a function of the chunks.\<close>

fun scan :: "chunk list \<Rightarrow> error + ExtractedPngCard option" where
  "scan [] = Inr None"
| "scan (c # cs) = (if is_card_chunk c then card_of_text (cdata c) else scan cs)"

text \<open>
  What the loop of \<^verbatim>\<open>embedCardIntoPng\<close> appends to \<^verbatim>\<open>outParts\<close>, as a function
  of the chunks: the insertion set ahead of an IEND chunk, and every chunk that is not a
  card chunk with a fresh CRC field.
\<close>

fun emitted :: "chunk list \<Rightarrow> chunk list \<Rightarrow> chunk list" where
  "emitted ins [] = []"
| "emitted ins (c # cs) =
     (if is_iend c then ins else []) @ (if is_card_chunk c then [] else [with_fresh_crc c]) @
     emitted ins cs"

text \<open>A chunk whose fields have the sizes of the file format.\<close>

definition well_sized :: "chunk \<Rightarrow> bool" where
  "well_sized c = (length (ctype c) = 4 \<and> length (ccrc c) = 4 \<and> length (cdata c) < 2 ^ 32)"

text \<open>The 6-bit values of a byte sequence, and the padding of its encoding.\<close>

fun sextets :: "nat list \<Rightarrow> nat list" where
  "sextets (x # y # z # r) =
     x div 4 # (x mod 4 * 16 + y div 16) # (y mod 16 * 4 + z div 64) # z mod 64 # sextets r"
| "sextets [x, y] = [x div 4, x mod 4 * 16 + y div 16, y mod 16 * 4]"
| "sextets [x] = [x div 4, x mod 4 * 16]"
| "sextets [] = []"

fun b64_padding :: "nat list \<Rightarrow> nat list" where
  "b64_padding (x # y # z # r) = b64_padding r"
| "b64_padding [x, y] = [61]"
| "b64_padding [x] = [61, 61]"
| "b64_padding [] = []"

text \<open>A Unicode scalar value.\<close>

definition is_scalar :: "nat \<Rightarrow> bool" where
  "is_scalar cp = (cp < 0x110000 \<and> \<not> (0xD800 \<le> cp \<and> cp \<le> 0xDFFF))"

text \<open>The string without a first code unit U+FEFF.\<close>

definition strip_bom :: "jsstring \<Rightarrow> jsstring" where
  "strip_bom s = (case s of [] \<Rightarrow> [] | u # r \<Rightarrow> if u = 0xFEFF then r else s)"

text \<open>The base64 text that \<^verbatim>\<open>base64EncodeUtf8\<close> returns.\<close>

definition base64_text :: "jsstring \<Rightarrow> jsstring" where
  "base64_text s = map of_nat (b64_encode (map unat (TextEncoder_encode s)))"

text \<open>The chunk that \<^verbatim>\<open>buildTextChunk\<close> serialises.\<close>

definition text_chunk :: "jsstring \<Rightarrow> jsstring \<Rightarrow> chunk" where
  "text_chunk kw base64Payload =
     \<lparr>ctype = encodeAscii (lit ''tEXt''),
      cdata = encodeAscii kw @ [0] @ encodeAscii base64Payload,
      ccrc = writeUint32BE (unat (crc32 (encodeAscii (lit ''tEXt'') @
               encodeAscii kw @ [0] @ encodeAscii base64Payload)))\<rparr>"

text \<open>The insertion set of \<^verbatim>\<open>embedCardIntoPng\<close>, as chunks.\<close>

definition insertion_set :: "jsstring \<Rightarrow> embed_opts option \<Rightarrow> chunk list" where
  "insertion_set s opts =
     (if opt_flag opts writeChara then [text_chunk (lit ''chara'') (base64_text s)] else []) @
     (if opt_flag opts writeCcv3 then [text_chunk (lit ''ccv3'') (base64_text s)] else [])"


declare walk.simps [simp del] extract_loop.simps [simp del] embed_loop.simps [simp del]
  utf8_decoder.simps [simp del] bytesToBinaryString_from.simps [simp del]

section \<open>Properties\<close>

subsection \<open>The checksum\<close>

lemma CRC32_TABLE_nth: "n < 256 \<Longrightarrow> CRC32_TABLE ! n = crc_bit_loop 8 (of_nat n)"
  by (simp add: CRC32_TABLE_def makeCrc32Table_def)

lemma crc_bit_loop_8:
  "crc_bit_loop 8 c = crc_bit_step (crc_bit_step (crc_bit_step (crc_bit_step
     (crc_bit_step (crc_bit_step (crc_bit_step (crc_bit_step c)))))))"
proof -
  have "(8::nat) = Suc (Suc (Suc (Suc (Suc (Suc (Suc (Suc 0)))))))" by simp
  then show ?thesis by (simp only: crc_bit_loop.simps)
qed

lemma crc_bit_step_alt:
  "crc_bit_step x = drop_bit 1 x XOR (if odd x then 0xedb88320 else 0)"
  by (cases "odd x") (simp_all add: crc_bit_step_def and_one_eq mod_2_eq_odd xor.commute)

lemma crc_bit_step_xor: "crc_bit_step (x XOR y) = crc_bit_step x XOR crc_bit_step y"
  by (simp add: crc_bit_step_alt even_xor_iff xor.assoc xor.left_commute)

lemma crc_bit_loop_xor: "crc_bit_loop k (x XOR y) = crc_bit_loop k x XOR crc_bit_loop k y"
  by (induction k arbitrary: x y) (simp_all add: crc_bit_step_xor)

lemma crc_bit_loop_high: "take_bit k h = 0 \<Longrightarrow> crc_bit_loop k h = drop_bit k h"
proof (induction k arbitrary: h)
  case 0
  then show ?case by simp
next
  case (Suc k)
  from Suc.prems have ev: "even h"
    by (metis even_take_bit_eq even_zero nat.distinct(1))
  from Suc.prems have "take_bit k (drop_bit 1 h) = 0"
    by (simp add: take_bit_drop_bit)
  with Suc.IH [of "drop_bit 1 h"] ev show ?case
    by (simp add: crc_bit_step_alt)
qed

lemma low_byte_bound: "unat ((x::u32) AND 0xff) < 256"
proof -
  have "unat (x AND 0xff) \<le> unat (0xff :: u32)"
    by (rule word_and_le1 [THEN word_le_nat_alt [THEN iffD1]])
  then show ?thesis by simp
qed

lemma and_ff_take_bit: "(x::u32) AND 0xff = take_bit 8 x"
  by (simp add: take_bit_eq_mask mask_eq_exp_minus_1)

lemma split_low_high: "(x::u32) = take_bit 8 x XOR push_bit 8 (drop_bit 8 x)"
  by (rule bit_eqI) (auto simp add: bit_simps)

lemma drop_bit_8_ucast_byte: "drop_bit 8 (ucast (b::byte) :: u32) = 0"
  by (rule bit_eqI) (auto simp add: bit_simps dest: bit_imp_le_length)

lemma drop_push_drop_8: "drop_bit 8 (push_bit 8 (drop_bit 8 (x::u32))) = drop_bit 8 x"
  by (rule bit_eqI) (auto simp add: bit_simps dest: bit_imp_le_length)

lemma crc32_step_reference: "crc32_step crc b = crc32_reference_byte crc b"
proof -
  define x where "x = crc XOR ucast b"
  have "crc_bit_loop 8 x =
        crc_bit_loop 8 (take_bit 8 x) XOR crc_bit_loop 8 (push_bit 8 (drop_bit 8 x))"
    using split_low_high [of x] crc_bit_loop_xor by metis
  also have "crc_bit_loop 8 (push_bit 8 (drop_bit 8 x)) = drop_bit 8 (push_bit 8 (drop_bit 8 x))"
    by (rule crc_bit_loop_high) (simp add: take_bit_push_bit)
  also have "\<dots> = drop_bit 8 crc"
    by (simp add: x_def drop_bit_8_ucast_byte drop_push_drop_8)
  also have "crc_bit_loop 8 (take_bit 8 x) = CRC32_TABLE ! unat (x AND 0xff)"
    using low_byte_bound [of x] by (simp add: CRC32_TABLE_nth and_ff_take_bit)
  finally show ?thesis
    by (simp add: crc32_step_def crc32_reference_byte_def x_def)
qed

lemma crc32_fold_reference:
  "foldl crc32_step c bs = foldl crc32_reference_byte c bs"
  by (induction bs arbitrary: c) (simp_all add: crc32_step_reference)

lemmas crc32_eval = crc32_def crc32_step_def CRC32_TABLE_nth crc_bit_step_def crc_bit_loop_8

text \<open>
  C8. The table-driven checksum of \<^verbatim>\<open>crc32.ts\<close> equals the bit-by-bit reflected
  CRC-32 (polynomial \<open>0xEDB88320\<close>, initial value \<open>0xFFFFFFFF\<close>, final complement)
  on every byte sequence, and the checksum of the four ASCII bytes of "IEND" is
  \<open>0xAE426082\<close>.
\<close>

theorem crc32_is_reference:
  "crc32 bs = crc32_reference bs \<and> crc32 [73, 69, 78, 68] = 0xAE426082"
proof
  show "crc32 bs = crc32_reference bs"
    by (simp add: crc32_def crc32_reference_def crc32_fold_reference)
  show "crc32 [73, 69, 78, 68] = 0xAE426082"
    by (simp add: crc32_eval)
qed

subsection \<open>Bytes, type tags and the signature\<close>

lemma signature_mismatch_iff: "signature_mismatch p \<longleftrightarrow> take 8 p \<noteq> PNG_SIGNATURE"
proof -
  have "take 8 p = PNG_SIGNATURE \<longleftrightarrow> (8 \<le> length p \<and> (\<forall>i<8. p ! i = PNG_SIGNATURE ! i))"
    by (auto simp add: list_eq_iff_nth_eq PNG_SIGNATURE_def min_def)
  then show ?thesis
    by (auto simp add: signature_mismatch_def)
qed

lemma unat8_of_nat: "n < 256 \<Longrightarrow> unat (of_nat n :: 8 word) = n"
  by (simp add: unat_of_nat)

lemma unat16_of_nat: "n < 0x10000 \<Longrightarrow> unat (of_nat n :: 16 word) = n"
  by (simp add: unat_of_nat)


lemma unat_byte_less: "unat (b :: 8 word) < 256"
  using unsigned_less [of b] by simp

lemma length_windows_1252_index: "length windows_1252_index = 32"
  by (simp add: windows_1252_index_def)

lemma windows_1252_index_range:
  "\<forall>x \<in> set windows_1252_index. 0x80 \<le> x \<and> x < 0x10000"
  by (simp add: windows_1252_index_def)

lemma windows_1252_index_nth:
  assumes "0x80 \<le> n" "n < 0xA0"
  shows "0x80 \<le> windows_1252_index ! (n - 0x80) \<and> windows_1252_index ! (n - 0x80) < 0x10000"
proof -
  from assms have "n - 0x80 < length windows_1252_index"
    unfolding length_windows_1252_index by linarith
  then have "windows_1252_index ! (n - 0x80) \<in> set windows_1252_index"
    by (rule nth_mem)
  with windows_1252_index_range show ?thesis by blast
qed

lemma windows_1252_high: "0x80 \<le> unat b \<Longrightarrow> 0x80 \<le> windows_1252 b"
  using windows_1252_index_nth [of "unat b"] by (simp add: windows_1252_def)

lemma windows_1252_bound: "windows_1252 b < 0x10000"
  using windows_1252_index_nth [of "unat b"] unat_byte_less [of b]
  by (simp add: windows_1252_def)

lemma windows_1252_ascii:
  assumes "n < 0x80"
  shows "(of_nat (windows_1252 b) :: 16 word) = of_nat n \<longleftrightarrow> b = of_nat n"
proof
  assume eq: "(of_nat (windows_1252 b) :: 16 word) = of_nat n"
  have "windows_1252 b = unat (of_nat (windows_1252 b) :: 16 word)"
    using windows_1252_bound [of b] by (rule unat16_of_nat [symmetric])
  also have "\<dots> = unat (of_nat n :: 16 word)"
    using eq by (rule arg_cong)
  also have "\<dots> = n"
    using assms by (intro unat16_of_nat) simp
  finally have w: "windows_1252 b = n" .
  have low: "unat b < 0x80"
  proof (rule ccontr)
    assume "\<not> unat b < 0x80"
    then have "0x80 \<le> windows_1252 b" by (intro windows_1252_high) simp
    with w assms show False by simp
  qed
  with w have "unat b = n" by (simp add: windows_1252_def)
  then have "of_nat (unat b) = (of_nat n :: 8 word)" by (rule arg_cong)
  then show "b = of_nat n" by simp
next
  assume "b = of_nat n"
  with assms have "unat b = n" by (simp add: unat8_of_nat)
  with assms show "(of_nat (windows_1252 b) :: 16 word) = of_nat n"
    by (simp add: windows_1252_def)
qed

lemma TextDecoder_ascii_eq_ascii:
  "\<forall>c \<in> set cs. c < 0x80 \<Longrightarrow>
   TextDecoder_ascii bs = map of_nat cs \<longleftrightarrow> bs = map of_nat cs"
proof (induction cs arbitrary: bs)
  case Nil
  then show ?case by (simp add: TextDecoder_ascii_def)
next
  case (Cons c cs)
  show ?case
  proof (cases bs)
    case Nil
    then show ?thesis by (simp add: TextDecoder_ascii_def)
  next
    case (Cons b bs')
    from Cons.prems have c: "c < 0x80" by simp
    from Cons.prems have "TextDecoder_ascii bs' = map of_nat cs \<longleftrightarrow> bs' = map of_nat cs"
      by (intro Cons.IH) simp
    with Cons windows_1252_ascii [OF c, of b] show ?thesis
      by (simp add: TextDecoder_ascii_def)
  qed
qed

lemma lit_IEND: "lit ''IEND'' = map of_nat [73, 69, 78, 68]"
  by (simp add: lit_def)

lemma lit_tEXt: "lit ''tEXt'' = map of_nat [116, 69, 88, 116]"
  by (simp add: lit_def)

lemma TextDecoder_ascii_IEND:
  "TextDecoder_ascii bs = lit ''IEND'' \<longleftrightarrow> bs = [73, 69, 78, 68]"
  unfolding lit_IEND by (subst TextDecoder_ascii_eq_ascii) simp_all

lemma TextDecoder_ascii_tEXt:
  "TextDecoder_ascii bs = lit ''tEXt'' \<longleftrightarrow> bs = [116, 69, 88, 116]"
  unfolding lit_tEXt by (subst TextDecoder_ascii_eq_ascii) simp_all

lemma byte_at_append: "byte_at (pre @ xs) (length pre + k) = byte_at xs k"
  by (simp add: byte_at_def nth_append)

lemma byte_at_append0: "byte_at (pre @ xs) (length pre) = byte_at xs 0"
  using byte_at_append [of pre xs 0] by simp


lemma writeUint32BE_word:
  "writeUint32BE (unat (w::u32)) =
     [ucast (drop_bit 24 w AND 0xff), ucast (drop_bit 16 w AND 0xff),
      ucast (drop_bit 8 w AND 0xff), ucast (w AND 0xff)]"
  by (simp add: writeUint32BE_def)

lemma be32_byte0: "ucast (drop_bit 24 (be32 b0 b1 b2 b3) AND 0xff) = b0"
  unfolding be32_def and_ff_take_bit
  by (rule bit_eqI) (auto simp add: bit_simps dest: bit_imp_le_length)

lemma be32_byte1: "ucast (drop_bit 16 (be32 b0 b1 b2 b3) AND 0xff) = b1"
  unfolding be32_def and_ff_take_bit
  by (rule bit_eqI) (auto simp add: bit_simps dest: bit_imp_le_length)

lemma be32_byte2: "ucast (drop_bit 8 (be32 b0 b1 b2 b3) AND 0xff) = b2"
  unfolding be32_def and_ff_take_bit
  by (rule bit_eqI) (auto simp add: bit_simps dest: bit_imp_le_length)

lemma be32_byte3: "ucast (be32 b0 b1 b2 b3 AND 0xff) = b3"
  unfolding be32_def and_ff_take_bit
  by (rule bit_eqI) (auto simp add: bit_simps dest: bit_imp_le_length)


lemma is_iend_not_card: "is_iend c \<Longrightarrow> \<not> is_card_chunk c"
  by (simp add: is_iend_def is_card_chunk_def is_card_text_def TextDecoder_ascii_IEND
      TextDecoder_ascii_tEXt)

lemma extract_loop_scan: "extract_loop p off = scan (fst (walk p off))"
proof (induction p off rule: walk.induct)
  case (1 p off)
  show ?case
    using 1 is_iend_not_card
    apply (subst walk.simps)
    apply (subst extract_loop.simps)
    apply (auto simp add: Let_def is_card_chunk_def is_iend_def split: prod.splits)
    done
qed

lemma embed_loop_emitted:
  "embed_loop p (map chunk_bytes ins) off out =
     (if snd (walk p off) = Overrun then Inl TruncatedPng
      else Inr (out @ map chunk_bytes (emitted ins (fst (walk p off)))))"
proof (induction p off arbitrary: out rule: walk.induct)
  case (1 p off)
  show ?case
    using 1 is_iend_not_card
    by (auto simp add: walk.simps [of p off] embed_loop.simps [of p _ off out]
          Let_def is_card_chunk_def is_iend_def chunk_bytes_def with_fresh_crc_def
          concatBytes_def split: prod.splits)
qed

lemma length_writeUint32BE [simp]: "length (writeUint32BE n) = 4"
  by (simp add: writeUint32BE_def)


lemma unat_readUint32BE_less: "unat (readUint32BE p off) < 2 ^ 32"
  using unsigned_less [of "readUint32BE p off"] by simp

lemma slice_4:
  "off + 4 \<le> length p \<Longrightarrow> slice p off (off + 4) = [p ! off, p ! (off + 1), p ! (off + 2), p ! (off + 3)]"
  by (auto simp add: slice_def list_eq_iff_nth_eq nth_Cons numeral_3_eq_3 split: nat.splits)

lemma writeUint32BE_readUint32BE:
  assumes "off + 4 \<le> length p"
  shows "writeUint32BE (unat (readUint32BE p off)) = slice p off (off + 4)"
proof -
  have "readUint32BE p off = be32 (p ! off) (p ! (off + 1)) (p ! (off + 2)) (p ! (off + 3))"
    using assms by (simp add: readUint32BE_def be32_def byte_at_def)
  then show ?thesis
    using assms
    by (simp add: writeUint32BE_word be32_byte0 be32_byte1 be32_byte2 be32_byte3 slice_4)
qed

lemma walk_well_sized: "c \<in> set (fst (walk p off)) \<Longrightarrow> well_sized c"
proof (induction p off rule: walk.induct)
  case (1 p off)
  then show ?case
    using unat_readUint32BE_less [of p off]
    by (auto simp add: walk.simps [of p off] Let_def well_sized_def slice_def
        split: if_splits prod.splits)
qed











lemma emitted_no_iend:
  "\<forall>c \<in> set cs. \<not> is_iend c \<Longrightarrow>
   emitted ins cs = map with_fresh_crc (filter (\<lambda>c. \<not> is_card_chunk c) cs)"
  by (induction cs) simp_all



lemma is_iend_fresh [simp]: "is_iend (with_fresh_crc c) = is_iend c"
  by (simp add: is_iend_def with_fresh_crc_def)

lemma is_card_chunk_fresh [simp]: "is_card_chunk (with_fresh_crc c) = is_card_chunk c"
  by (simp add: is_card_chunk_def with_fresh_crc_def)

lemma well_sized_fresh: "well_sized c \<Longrightarrow> well_sized (with_fresh_crc c)"
  by (simp add: well_sized_def with_fresh_crc_def)

lemma crc_ok_fresh [simp]: "crc_ok (with_fresh_crc c)"
  by (simp add: crc_ok_def with_fresh_crc_def)


lemma b64_encode_sextets: "b64_encode ns = map b64_char (sextets ns) @ b64_padding ns"
  by (induction ns rule: sextets.induct) simp_all

lemma div16_less: "(y::nat) < 256 \<Longrightarrow> y div 16 < 16"
  by simp

lemma div64_less: "(z::nat) < 256 \<Longrightarrow> z div 64 < 4"
  by simp

lemma mult16_div_mod: "(b::nat) < 16 \<Longrightarrow> (a * 16 + b) div 16 = a \<and> (a * 16 + b) mod 16 = b"
  by simp

lemma mult4_div_mod: "(b::nat) < 4 \<Longrightarrow> (a * 4 + b) div 4 = a \<and> (a * 4 + b) mod 4 = b"
  by simp

lemma sextet_join1: "(x::nat) < 256 \<Longrightarrow> y < 256 \<Longrightarrow> x div 4 * 4 + (x mod 4 * 16 + y div 16) div 16 = x"
  by (simp add: mult16_div_mod div16_less)

lemma sextet_join2:
  "(y::nat) < 256 \<Longrightarrow> z < 256 \<Longrightarrow>
   (x mod 4 * 16 + y div 16) mod 16 * 16 + (y mod 16 * 4 + z div 64) div 4 = y"
  by (simp add: mult16_div_mod mult4_div_mod div16_less div64_less)

lemma sextet_join3: "(z::nat) < 256 \<Longrightarrow> (y mod 16 * 4 + z div 64) mod 4 * 64 + z mod 64 = z"
  by (simp add: mult4_div_mod div64_less)

lemma sextet_join4: "(y::nat) < 256 \<Longrightarrow> (x mod 4 * 16 + y div 16) mod 16 * 16 + (y mod 16 * 4) div 4 = y"
  by (simp add: mult16_div_mod div16_less)

lemma sextet_join5: "(x::nat) div 4 * 4 + (x mod 4 * 16) div 16 = x"
  by simp

lemma sextet_bound1: "(x::nat) < 256 \<Longrightarrow> x div 4 < 64"
  by simp

lemma sextet_bound2: "(y::nat) < 256 \<Longrightarrow> x mod 4 * 16 + y div 16 < 64"
proof -
  assume "y < 256" then have "y div 16 < 16" by simp
  moreover have "x mod 4 < 4" by simp
  ultimately show ?thesis by linarith
qed

lemma sextet_bound3: "(z::nat) < 256 \<Longrightarrow> y mod 16 * 4 + z div 64 < 64"
proof -
  assume "z < 256" then have "z div 64 < 4" by simp
  moreover have "y mod 16 < 16" by simp
  ultimately show ?thesis by linarith
qed

lemma sextet_bound4: "(x::nat) mod 4 * 16 < 64"
proof -
  have "x mod 4 < 4" by simp
  then show ?thesis by linarith
qed

lemma sextet_bound5: "(y::nat) mod 16 * 4 < 64"
proof -
  have "y mod 16 < 16" by simp
  then show ?thesis by linarith
qed

lemma sextets_bound: "\<forall>n \<in> set ns. n < 256 \<Longrightarrow> \<forall>v \<in> set (sextets ns). v < 64"
  by (induction ns rule: sextets.induct)
     (simp_all add: sextet_bound1 sextet_bound2 sextet_bound3 sextet_bound4 sextet_bound5)

lemma b64_decode_sextets: "\<forall>n \<in> set ns. n < 256 \<Longrightarrow> b64_decode (sextets ns) = ns"
proof (induction ns rule: sextets.induct)
  case (1 x y z r)
  then have x: "x < 256" and y: "y < 256" and z: "z < 256" and r: "\<forall>n \<in> set r. n < 256"
    by simp_all
  show ?case
    by (simp only: sextets.simps b64_decode.simps sextet_join1 [OF x y] sextet_join2 [OF y z]
        sextet_join3 [OF z] 1(1) [OF r])
next
  case (2 x y)
  then have x: "x < 256" and y: "y < 256" by simp_all
  show ?case
    by (simp only: sextets.simps b64_decode.simps sextet_join1 [OF x y] sextet_join4 [OF y])
next
  case (3 x)
  show ?case
    by (simp only: sextets.simps b64_decode.simps sextet_join5)
next
  case 4
  show ?case by simp
qed

lemma length_sextets_mod: "length (sextets ns) mod 4 \<noteq> 1"
  by (induction ns rule: sextets.induct) simp_all

lemma length_b64_encode_mod: "length (b64_encode ns) mod 4 = 0"
  by (induction ns rule: b64_encode.induct) simp_all

lemma b64_value_char: "v < 64 \<Longrightarrow> b64_value (b64_char v) = Some v"
  by (auto simp add: b64_value_def b64_char_def)

lemma b64_char_props:
  "v < 64 \<Longrightarrow> b64_char v \<noteq> 61 \<and> \<not> ascii_whitespace (b64_char v) \<and> b64_char v < 128"
  by (auto simp add: b64_char_def ascii_whitespace_def)

lemma b64_padding_cases: "b64_padding ns = [] \<or> b64_padding ns = [61] \<or> b64_padding ns = [61, 61]"
  by (induction ns rule: b64_padding.induct) simp_all

lemma strip_padding_body:
  assumes pad: "pad = [] \<or> pad = [61] \<or> pad = [61, 61]"
    and len: "length (body @ pad) mod 4 = 0"
    and body: "\<forall>c \<in> set body. c \<noteq> 61"
  shows "strip_padding (body @ pad) = body"
proof -
  have last_body: "body \<noteq> [] \<Longrightarrow> last body \<noteq> 61"
    using body by (meson last_in_set)
  from pad consider "pad = []" | "pad = [61]" | "pad = [61, 61]" by blast
  then show ?thesis
  proof cases
    case 1
    with last_body show ?thesis by (auto simp add: strip_padding_def)
  next
    case 2
    with len last_body show ?thesis by (auto simp add: strip_padding_def butlast_append)
  next
    case 3
    with len last_body show ?thesis by (auto simp add: strip_padding_def butlast_append)
  qed
qed

lemma b64_encode_chars:
  assumes "\<forall>n \<in> set ns. n < 256"
  shows "\<forall>c \<in> set (b64_encode ns). \<not> ascii_whitespace c \<and> c < 128"
proof -
  have "\<forall>c \<in> set (b64_padding ns). \<not> ascii_whitespace c \<and> c < 128"
    using b64_padding_cases [of ns] by (auto simp add: ascii_whitespace_def)
  moreover have "\<forall>c \<in> set (map b64_char (sextets ns)). \<not> ascii_whitespace c \<and> c < 128"
    using sextets_bound [OF assms] b64_char_props by auto
  ultimately show ?thesis by (auto simp add: b64_encode_sextets)
qed

lemma strip_padding_b64_encode:
  assumes "\<forall>n \<in> set ns. n < 256"
  shows "strip_padding (b64_encode ns) = map b64_char (sextets ns)"
proof -
  have "\<forall>c \<in> set (map b64_char (sextets ns)). c \<noteq> 61"
    using sextets_bound [OF assms] b64_char_props by auto
  with b64_padding_cases [of ns] length_b64_encode_mod [of ns] show ?thesis
    unfolding b64_encode_sextets by (intro strip_padding_body) simp_all
qed

lemma map_unat_of_nat16:
  "\<forall>c \<in> set cs. c < 0x10000 \<Longrightarrow> map unat (map of_nat cs :: 16 word list) = cs"
  by (induction cs) (simp_all add: unat16_of_nat)

lemma atob_b64_encode:
  assumes "\<forall>n \<in> set ns. n < 256"
  shows "atob (map of_nat (b64_encode ns)) = Some (map of_nat ns)"
proof -
  let ?e = "b64_encode ns"
  have chars: "\<forall>c \<in> set ?e. \<not> ascii_whitespace c \<and> c < 128"
    by (rule b64_encode_chars [OF assms])
  then have "\<forall>c \<in> set ?e. c < 0x10000" by auto
  then have units: "map unat (map of_nat ?e :: 16 word list) = ?e"
    by (rule map_unat_of_nat16)
  have nows: "filter (\<lambda>c. \<not> ascii_whitespace c) ?e = ?e"
    using chars by (simp add: filter_id_conv)
  have strip: "strip_padding ?e = map b64_char (sextets ns)"
    by (rule strip_padding_b64_encode [OF assms])
  have vals: "map (\<lambda>c. the (b64_value c)) (map b64_char (sextets ns)) = sextets ns"
    using sextets_bound [OF assms] by (simp add: b64_value_char map_idI)
  have ok: "\<forall>c \<in> set (map b64_char (sextets ns)). b64_value c \<noteq> None"
    using sextets_bound [OF assms] by (simp add: b64_value_char)
  show ?thesis
    unfolding atob_def units nows strip Let_def vals
    using ok length_sextets_mod [of ns] b64_decode_sextets [OF assms]
    by simp
qed

lemma map_take_drop_split:
  "map f (take n (drop i xs)) @ map f (drop (i + n) xs) = map f (drop i xs)"
  by (metis add.commute append_take_drop_id drop_drop map_append)

lemma slice_take_drop: "slice xs i (i + n) = take n (drop i xs)"
  by (simp add: slice_def)

lemma bytesToBinaryString_from_eq: "bytesToBinaryString_from bs i = map ucast (drop i bs)"
proof (induction bs i rule: bytesToBinaryString_from.induct)
  case (1 bs i)
  show ?case
  proof (cases "i < length bs")
    case True
    have "bytesToBinaryString_from bs i =
          map ucast (slice bs i (i + 0x2000)) @ bytesToBinaryString_from bs (i + 0x2000)"
      by (subst bytesToBinaryString_from.simps) (simp only: True if_True)
    also have "\<dots> = map ucast (take 0x2000 (drop i bs)) @ map ucast (drop (i + 0x2000) bs)"
      by (simp only: slice_take_drop 1 [OF True])
    also have "\<dots> = map ucast (drop i bs)"
      by (rule map_take_drop_split)
    finally show ?thesis .
  next
    case False
    then show ?thesis by (simp add: bytesToBinaryString_from.simps [of bs i])
  qed
qed

lemma bytesToBinaryString_eq: "bytesToBinaryString bs = map ucast bs"
  by (simp add: bytesToBinaryString_def bytesToBinaryString_from_eq)

lemma unat_ucast_byte16: "unat (ucast (b::byte) :: 16 word) = unat b"
proof -
  have "unat b < 2 ^ 16"
    using unat_byte_less [of b] by simp
  then show ?thesis
    by (simp add: unsigned_ucast_eq take_bit_nat_eq_self)
qed

lemma ucast_byte16_of_nat: "(ucast (b::byte) :: 16 word) = of_nat (unat b)"
  by simp

lemma map_unat_ucast_bytes: "map unat (map ucast (bs::bytes) :: jsstring) = map unat bs"
  by (induction bs) (simp_all add: unat_ucast_byte16)

lemma btoa_binary:
  "btoa (map ucast (bs::bytes)) = Some (map of_nat (b64_encode (map unat bs)))"
proof -
  have "\<forall>u \<in> set (map ucast bs :: jsstring). \<not> 0xFF < unat u"
  proof
    fix u :: "16 word"
    assume "u \<in> set (map ucast bs)"
    then obtain b :: byte where "u = ucast b" by auto
    with unat_byte_less [of b] show "\<not> 0xFF < unat u"
      by (simp add: unat_ucast_byte16)
  qed
  then have "\<not> (\<exists>u \<in> set (map ucast bs :: jsstring). 0xFF < unat u)" by blast
  then show ?thesis
    unfolding btoa_def by (simp only: if_False map_unat_ucast_bytes)
qed

lemma div_4096: "(cp::nat) div 4096 = cp div 64 div 64"
proof -
  have "(4096::nat) = 64 * 64" by simp
  then show ?thesis by (simp only: div_mult2_eq)
qed

lemma div_262144: "(cp::nat) div 262144 = cp div 4096 div 64"
proof -
  have "(262144::nat) = 4096 * 64" by simp
  then show ?thesis by (simp only: div_mult2_eq)
qed

lemma split64: "(a::nat) = a div 64 * 64 + a mod 64"
  by simp

lemma rejoin3: "((cp::nat) div 4096 * 64 + cp div 64 mod 64) * 64 + cp mod 64 = cp"
  by (simp add: div_4096)

lemma rejoin4:
  "(((cp::nat) div 262144 * 64 + cp div 4096 mod 64) * 64 + cp div 64 mod 64) * 64 + cp mod 64 = cp"
  by (simp add: div_262144 div_4096)

lemma lead2: "(128::nat) \<le> cp \<Longrightarrow> cp < 2048 \<Longrightarrow> 2 \<le> cp div 64 \<and> cp div 64 < 32"
  by auto

lemma lead3: "(cp::nat) < 65536 \<Longrightarrow> cp div 4096 < 16"
  by simp

lemma lead4: "(cp::nat) < 1114112 \<Longrightarrow> cp div 262144 \<le> 4"
  by simp

lemma low_E0:
  assumes "(2048::nat) \<le> cp" "cp div 4096 = 0"
  shows "32 \<le> cp div 64 mod 64"
proof -
  from assms(2) have "cp div 64 div 64 = 0" by (simp only: div_4096)
  then have "cp div 64 mod 64 = cp div 64" by simp
  moreover from assms(1) have "32 \<le> cp div 64" by simp
  ultimately show ?thesis by simp
qed

lemma high_ED:
  assumes "(cp::nat) < 55296" "cp div 4096 = 13"
  shows "cp div 64 mod 64 < 32"
proof -
  from assms(2) have "cp div 64 div 64 = 13" by (simp only: div_4096)
  with split64 [of "cp div 64"] have "cp div 64 = 832 + cp div 64 mod 64" by simp
  moreover from assms(1) have "cp div 64 < 864" by simp
  ultimately show ?thesis by linarith
qed

lemma low_F0:
  assumes "(65536::nat) \<le> cp" "cp div 262144 = 0"
  shows "16 \<le> cp div 4096 mod 64"
proof -
  from assms(2) have "cp div 4096 div 64 = 0" by (simp only: div_262144)
  then have "cp div 4096 mod 64 = cp div 4096" by simp
  moreover from assms(1) have "16 \<le> cp div 4096" by simp
  ultimately show ?thesis by simp
qed

lemma high_F4:
  assumes "(cp::nat) < 1114112" "cp div 262144 = 4"
  shows "cp div 4096 mod 64 < 16"
proof -
  from assms(2) have "cp div 4096 div 64 = 4" by (simp only: div_262144)
  with split64 [of "cp div 4096"] have "cp div 4096 = 256 + cp div 4096 mod 64" by simp
  moreover from assms(1) have "cp div 4096 < 272" by simp
  ultimately show ?thesis by linarith
qed

lemma m32: "(k::nat) < 32 \<Longrightarrow> (192 + k) mod 32 = k"
proof -
  assume "k < 32"
  have "(192 + k) mod 32 = (6 * 32 + k) mod 32" by simp
  also have "\<dots> = k mod 32" by (simp only: mod_mult_self3)
  finally show ?thesis using \<open>k < 32\<close> by simp
qed

lemma m16: "(k::nat) < 16 \<Longrightarrow> (224 + k) mod 16 = k"
proof -
  assume "k < 16"
  have "(224 + k) mod 16 = (14 * 16 + k) mod 16" by simp
  also have "\<dots> = k mod 16" by (simp only: mod_mult_self3)
  finally show ?thesis using \<open>k < 16\<close> by simp
qed

lemma m8: "(k::nat) < 8 \<Longrightarrow> (240 + k) mod 8 = k"
proof -
  assume "k < 8"
  have "(240 + k) mod 8 = (30 * 8 + k) mod 8" by simp
  also have "\<dots> = k mod 8" by (simp only: mod_mult_self3)
  finally show ?thesis using \<open>k < 8\<close> by simp
qed

lemma m64: "(128 + (k::nat) mod 64) mod 64 = k mod 64"
proof -
  have "(128 + k mod 64) mod 64 = (2 * 64 + k mod 64) mod 64" by simp
  also have "\<dots> = k mod 64 mod 64" by (simp only: mod_mult_self3)
  finally show ?thesis by simp
qed


lemma pair_div_mod: "(b::nat) < 1024 \<Longrightarrow> (a * 1024 + b) div 1024 = a \<and> (a * 1024 + b) mod 1024 = b"
  by simp

lemma unat16_less: "unat (u :: 16 word) < 0x10000"
  using unsigned_less [of u] by simp

lemma is_scalar_unit:
  "\<not> high_surrogate u \<Longrightarrow> \<not> low_surrogate u \<Longrightarrow> is_scalar (unat u)"
  using unat16_less [of u] by (auto simp add: is_scalar_def high_surrogate_def low_surrogate_def)

lemma is_scalar_pair:
  assumes "high_surrogate u" "low_surrogate v"
  shows "is_scalar (0x10000 + (unat u - 0xD800) * 0x400 + (unat v - 0xDC00))"
proof -
  from assms have "0x10000 + (unat u - 0xD800) * 0x400 + (unat v - 0xDC00) < 0x110000"
    unfolding high_surrogate_def low_surrogate_def by linarith
  then show ?thesis by (simp add: is_scalar_def)
qed

lemma is_scalar_replacement: "is_scalar 0xFFFD"
  by (simp add: is_scalar_def)

lemma to_scalars_scalar: "\<forall>c \<in> set (to_scalars s). is_scalar c"
  by (induction s rule: to_scalars.induct)
     (simp_all add: is_scalar_unit is_scalar_pair is_scalar_replacement)

lemma utf16_units_pair:
  assumes "high_surrogate u" "low_surrogate v"
  shows "utf16_units (0x10000 + (unat u - 0xD800) * 0x400 + (unat v - 0xDC00)) = [u, v]"
proof -
  let ?a = "unat u - 0xD800" and ?b = "unat v - 0xDC00"
  from assms have u: "0xD800 \<le> unat u" and v: "0xDC00 \<le> unat v" "unat v \<le> 0xDFFF"
    by (simp_all add: high_surrogate_def low_surrogate_def)
  from v have b: "?b < 1024" by linarith
  have cp: "0x10000 + ?a * 0x400 + ?b - 0x10000 = ?a * 1024 + ?b" by simp
  have "0xD800 + (?a * 1024 + ?b) div 1024 = unat u"
    using u pair_div_mod [OF b, of ?a] by simp
  moreover have "0xDC00 + (?a * 1024 + ?b) mod 1024 = unat v"
    using v pair_div_mod [OF b, of ?a] by simp
  moreover have "\<not> 0x10000 + ?a * 0x400 + ?b < 0x10000" by simp
  ultimately show ?thesis
    unfolding utf16_units_def cp by (simp only: if_False of_nat_unat ucast_id)
qed

lemma utf16_units_single: "utf16_units (unat (u :: 16 word)) = [u]"
  using unat16_less [of u] by (simp add: utf16_units_def)

lemma from_scalars_to_scalars: "well_formed s \<Longrightarrow> from_scalars (to_scalars s) = s"
  by (induction s rule: to_scalars.induct)
     (simp_all add: from_scalars_def utf16_units_single utf16_units_pair)

lemma decode1:
  "unat b \<le> 0x7F \<Longrightarrow>
   utf8_decoder 0 0 0 0x80 0xBF (b # rest) = Some (unat b) # utf8_decoder 0 0 0 0x80 0xBF rest"
  by (simp add: utf8_decoder.simps)

lemma decode_cont_more:
  assumes "unat b = 0x80 + m" "m < 64" "needed \<noteq> 0" "lower \<le> 0x80 + m" "0x80 + m \<le> upper"
    and "seen' = seen + 1" "seen' \<noteq> needed" "cp' = cp * 0x40 + m"
  shows "utf8_decoder cp seen needed lower upper (b # rest) =
         utf8_decoder cp' seen' needed 0x80 0xBF rest"
proof -
  have "(0x80 + m) mod 0x40 = m"
    using m64 [of m] assms(2) by simp
  with assms show ?thesis
    by (simp add: utf8_decoder.simps)
qed

lemma decode_cont_last:
  assumes "unat b = 0x80 + m" "m < 64" "needed \<noteq> 0" "lower \<le> 0x80 + m" "0x80 + m \<le> upper"
    and "seen + 1 = needed" "cp' = cp * 0x40 + m"
  shows "utf8_decoder cp seen needed lower upper (b # rest) =
         Some cp' # utf8_decoder 0 0 0 0x80 0xBF rest"
proof -
  have "(0x80 + m) mod 0x40 = m"
    using m64 [of m] assms(2) by simp
  with assms show ?thesis
    by (simp add: utf8_decoder.simps)
qed

lemma decode2:
  assumes "unat b1 = 0xC0 + k" "2 \<le> k" "k < 32" "unat b2 = 0x80 + m" "m < 64"
  shows "utf8_decoder 0 0 0 0x80 0xBF (b1 # b2 # rest) =
         Some (k * 64 + m) # utf8_decoder 0 0 0 0x80 0xBF rest"
proof -
  have "utf8_decoder 0 0 0 0x80 0xBF (b1 # b2 # rest) = utf8_decoder k 0 1 0x80 0xBF (b2 # rest)"
    using assms(1-3) m32 [of k] by (simp add: utf8_decoder.simps)
  also have "\<dots> = Some (k * 64 + m) # utf8_decoder 0 0 0 0x80 0xBF rest"
    by (rule decode_cont_last [OF assms(4,5)]) (use assms(5) in simp_all)
  finally show ?thesis .
qed

lemma decode3:
  assumes "unat b1 = 0xE0 + k" "k < 16" "unat b2 = 0x80 + m" "m < 64" "unat b3 = 0x80 + l" "l < 64"
    and "k = 0 \<Longrightarrow> 32 \<le> m" and "k = 13 \<Longrightarrow> m < 32"
  shows "utf8_decoder 0 0 0 0x80 0xBF (b1 # b2 # b3 # rest) =
         Some ((k * 64 + m) * 64 + l) # utf8_decoder 0 0 0 0x80 0xBF rest"
proof -
  let ?lower = "if k = 0 then 0xA0 else (0x80::nat)" and ?upper = "if k = 13 then 0x9F else (0xBF::nat)"
  have lo: "?lower \<le> 0x80 + m" using assms(7) by auto
  have up: "0x80 + m \<le> ?upper" using assms(4,8) by auto
  have "utf8_decoder 0 0 0 0x80 0xBF (b1 # b2 # b3 # rest) =
        utf8_decoder k 0 2 ?lower ?upper (b2 # b3 # rest)"
    using assms(1,2) m16 [of k] by (simp add: utf8_decoder.simps)
  also have "\<dots> = utf8_decoder (k * 64 + m) 1 2 0x80 0xBF (b3 # rest)"
    by (rule decode_cont_more [OF assms(3,4) _ lo up]) simp_all
  also have "\<dots> = Some ((k * 64 + m) * 64 + l) # utf8_decoder 0 0 0 0x80 0xBF rest"
    by (rule decode_cont_last [OF assms(5,6)]) (use assms(6) in simp_all)
  finally show ?thesis .
qed

lemma decode4:
  assumes "unat b1 = 0xF0 + k" "k \<le> 4" "unat b2 = 0x80 + m" "m < 64" "unat b3 = 0x80 + l" "l < 64"
    and "unat b4 = 0x80 + j" "j < 64"
    and "k = 0 \<Longrightarrow> 16 \<le> m" and "k = 4 \<Longrightarrow> m < 16"
  shows "utf8_decoder 0 0 0 0x80 0xBF (b1 # b2 # b3 # b4 # rest) =
         Some (((k * 64 + m) * 64 + l) * 64 + j) # utf8_decoder 0 0 0 0x80 0xBF rest"
proof -
  let ?lower = "if k = 0 then 0x90 else (0x80::nat)" and ?upper = "if k = 4 then 0x8F else (0xBF::nat)"
  from assms(2) have k8: "k < 8" by simp
  have lo: "?lower \<le> 0x80 + m" using assms(9) by auto
  have up: "0x80 + m \<le> ?upper" using assms(4,10) by auto
  have "utf8_decoder 0 0 0 0x80 0xBF (b1 # b2 # b3 # b4 # rest) =
        utf8_decoder k 0 3 ?lower ?upper (b2 # b3 # b4 # rest)"
    using assms(1,2) m8 [OF k8] by (simp add: utf8_decoder.simps)
  also have "\<dots> = utf8_decoder (k * 64 + m) 1 3 0x80 0xBF (b3 # b4 # rest)"
    by (rule decode_cont_more [OF assms(3,4) _ lo up]) simp_all
  also have "\<dots> = utf8_decoder ((k * 64 + m) * 64 + l) 2 3 0x80 0xBF (b4 # rest)"
    by (rule decode_cont_more [OF assms(5,6)]) (use assms(6) in simp_all)
  also have "\<dots> = Some (((k * 64 + m) * 64 + l) * 64 + j) # utf8_decoder 0 0 0 0x80 0xBF rest"
    by (rule decode_cont_last [OF assms(7,8)]) (use assms(8) in simp_all)
  finally show ?thesis .
qed

lemma utf8_decoder_bytes:
  assumes "is_scalar cp"
  shows "utf8_decoder 0 0 0 0x80 0xBF (utf8_bytes cp @ rest) =
         Some cp # utf8_decoder 0 0 0 0x80 0xBF rest"
proof -
  from assms have top: "cp < 1114112" and sur: "\<not> (55296 \<le> cp \<and> cp \<le> 57343)"
    by (simp_all add: is_scalar_def)
  have cont: "\<And>x::nat. unat (of_nat (0x80 + x mod 0x40) :: byte) = 0x80 + x mod 0x40"
    by (rule unat8_of_nat) simp
  have m: "\<And>x::nat. x mod 0x40 < 64" by simp
  consider "cp < 0x80" | "0x80 \<le> cp" "cp < 0x800" | "0x800 \<le> cp" "cp < 0x10000" | "0x10000 \<le> cp"
    by linarith
  then show ?thesis
  proof cases
    case 1
    then have "unat (of_nat cp :: byte) = cp" by (intro unat8_of_nat) simp
    with 1 decode1 [of "of_nat cp" rest] show ?thesis
      by (simp add: utf8_bytes_def)
  next
    case 2
    from lead2 [OF 2] have k: "2 \<le> cp div 64" "cp div 64 < 32" by simp_all
    then have b1: "unat (of_nat (0xC0 + cp div 0x40) :: byte) = 0xC0 + cp div 64"
      by (intro unat8_of_nat) simp
    have "utf8_decoder 0 0 0 0x80 0xBF
            (of_nat (0xC0 + cp div 0x40) # of_nat (0x80 + cp mod 0x40) # rest) =
          Some (cp div 64 * 64 + cp mod 64) # utf8_decoder 0 0 0 0x80 0xBF rest"
      by (rule decode2 [OF b1 k cont m])
    with 2 show ?thesis
      by (simp add: utf8_bytes_def)
  next
    case 3
    from lead3 [OF 3(2)] have k: "cp div 4096 < 16" .
    then have b1: "unat (of_nat (0xE0 + cp div 0x1000) :: byte) = 0xE0 + cp div 4096"
      by (intro unat8_of_nat) simp
    have lo: "cp div 4096 = 0 \<Longrightarrow> 32 \<le> cp div 64 mod 64"
      using low_E0 [OF 3(1)] by simp
    have up: "cp div 4096 = 13 \<Longrightarrow> cp div 64 mod 64 < 32"
    proof -
      assume k13: "cp div 4096 = 13"
      then have "cp < 57344" by simp
      with sur have "cp < 55296" by simp
      then show ?thesis using k13 by (rule high_ED)
    qed
    have "utf8_decoder 0 0 0 0x80 0xBF
            (of_nat (0xE0 + cp div 0x1000) # of_nat (0x80 + cp div 0x40 mod 0x40) #
             of_nat (0x80 + cp mod 0x40) # rest) =
          Some ((cp div 4096 * 64 + cp div 64 mod 64) * 64 + cp mod 64) #
          utf8_decoder 0 0 0 0x80 0xBF rest"
      by (rule decode3 [OF b1 k cont m cont m lo up])
    with 3 show ?thesis
      by (simp only: utf8_bytes_def rejoin3 append_Cons append_Nil) simp
  next
    case 4
    from lead4 [OF top] have k: "cp div 262144 \<le> 4" .
    then have b1: "unat (of_nat (0xF0 + cp div 0x40000) :: byte) = 0xF0 + cp div 262144"
      by (intro unat8_of_nat) simp
    have lo: "cp div 262144 = 0 \<Longrightarrow> 16 \<le> cp div 4096 mod 64"
      using low_F0 [OF 4] by simp
    have up: "cp div 262144 = 4 \<Longrightarrow> cp div 4096 mod 64 < 16"
      using high_F4 [OF top] by simp
    have "utf8_decoder 0 0 0 0x80 0xBF
            (of_nat (0xF0 + cp div 0x40000) # of_nat (0x80 + cp div 0x1000 mod 0x40) #
             of_nat (0x80 + cp div 0x40 mod 0x40) # of_nat (0x80 + cp mod 0x40) # rest) =
          Some (((cp div 262144 * 64 + cp div 4096 mod 64) * 64 + cp div 64 mod 64) * 64 + cp mod 64) #
          utf8_decoder 0 0 0 0x80 0xBF rest"
      by (rule decode4 [OF b1 k cont m cont m cont m lo up])
    with 4 show ?thesis
      by (simp only: utf8_bytes_def rejoin4 append_Cons append_Nil) simp
  qed
qed

lemma utf8_decoder_encode:
  "\<forall>c \<in> set cps. is_scalar c \<Longrightarrow>
   utf8_decoder 0 0 0 0x80 0xBF (concat (map utf8_bytes cps)) = map Some cps"
  by (induction cps) (simp_all add: utf8_decoder.simps utf8_decoder_bytes)

lemma unat_eq_bom: "unat (u :: 16 word) = 0xFEFF \<longleftrightarrow> u = 0xFEFF"
  by (simp add: word_unat_eq_iff)

lemma serialize_output_to_scalars:
  assumes "well_formed s"
  shows "serialize_output (to_scalars s) = strip_bom s"
proof (cases s rule: to_scalars.cases)
  case 1
  then show ?thesis by (simp add: serialize_output_def strip_bom_def from_scalars_def)
next
  case (2 u)
  with assms show ?thesis
    by (simp add: serialize_output_def strip_bom_def from_scalars_def utf16_units_single unat_eq_bom)
next
  case (3 u v vs)
  show ?thesis
  proof (cases "high_surrogate u")
    case True
    with assms 3 have low: "low_surrogate v" by simp
    from True have "u \<noteq> 0xFEFF" by (auto simp add: high_surrogate_def)
    moreover have "0x10000 + (unat u - 0xD800) * 0x400 + (unat v - 0xDC00) \<noteq> 0xFEFF" by simp
    moreover have "from_scalars (to_scalars s) = s"
      using assms by (rule from_scalars_to_scalars)
    ultimately show ?thesis
      using 3 True low by (simp add: serialize_output_def strip_bom_def)
  next
    case False
    with assms 3 have wf: "well_formed (v # vs)" and nl: "\<not> low_surrogate u" by simp_all
    have tail: "from_scalars (to_scalars (v # vs)) = v # vs"
      using wf by (rule from_scalars_to_scalars)
    have whole: "from_scalars (unat u # to_scalars (v # vs)) = u # v # vs"
      using tail by (simp add: from_scalars_def utf16_units_single)
    show ?thesis
      using 3 False nl tail whole
      by (simp add: serialize_output_def strip_bom_def unat_eq_bom)
  qed
qed

theorem TextDecoder_utf8_TextEncoder:
  assumes "well_formed s"
  shows "TextDecoder_utf8 True (TextEncoder_encode s) = Some (strip_bom s)"
proof -
  have "utf8_decoder 0 0 0 0x80 0xBF (TextEncoder_encode s) = map Some (to_scalars s)"
    unfolding TextEncoder_encode_def by (rule utf8_decoder_encode [OF to_scalars_scalar])
  then show ?thesis
    using serialize_output_to_scalars [OF assms]
    by (simp add: TextDecoder_utf8_def Let_def comp_def image_iff)
qed

subsection \<open>Text chunks\<close>

lemma not_surrogate_ascii: "unat u < 0x80 \<Longrightarrow> \<not> high_surrogate u \<and> \<not> low_surrogate u"
  by (simp add: high_surrogate_def low_surrogate_def)

lemma to_scalars_ascii: "\<forall>u \<in> set s. unat u < 0x80 \<Longrightarrow> to_scalars s = map unat s"
  by (induction s rule: to_scalars.induct) (simp_all add: not_surrogate_ascii)

lemma ucast_16_8_of_unat: "(of_nat (unat (u :: 16 word)) :: byte) = ucast u"
  by simp

lemma TextEncoder_encode_ascii:
  assumes "\<forall>u \<in> set s. unat u < 0x80"
  shows "TextEncoder_encode s = map ucast s"
proof -
  have "concat (map utf8_bytes (map unat s)) = map ucast s"
    using assms by (induction s) (simp_all add: utf8_bytes_def)
  then show ?thesis
    by (simp add: TextEncoder_encode_def to_scalars_ascii [OF assms])
qed

lemma unat_ucast_16_8: "unat (u :: 16 word) < 256 \<Longrightarrow> unat (ucast u :: byte) = unat u"
  by (simp add: unsigned_ucast_eq take_bit_nat_eq_self)

lemma TextDecoder_ascii_ucast:
  assumes "\<forall>u \<in> set s. unat u < 0x80"
  shows "TextDecoder_ascii (map ucast s) = s"
proof -
  have "\<And>u :: 16 word. unat u < 0x80 \<Longrightarrow> (of_nat (windows_1252 (ucast u)) :: 16 word) = u"
  proof -
    fix u :: "16 word"
    assume u: "unat u < 0x80"
    then have "unat (ucast u :: byte) = unat u" by (intro unat_ucast_16_8) simp
    with u have "windows_1252 (ucast u) = unat u" by (simp add: windows_1252_def)
    then show "(of_nat (windows_1252 (ucast u)) :: 16 word) = u" by simp
  qed
  with assms show ?thesis
    by (simp add: TextDecoder_ascii_def map_idI)
qed

lemma base64_text_ascii: "\<forall>u \<in> set (base64_text s). unat u < 0x80"
proof -
  let ?ns = "map unat (TextEncoder_encode s)"
  have "\<forall>n \<in> set ?ns. n < 256" using unat_byte_less by auto
  then have "\<forall>c \<in> set (b64_encode ?ns). c < 128" using b64_encode_chars by blast
  then show ?thesis
    by (auto simp add: base64_text_def unat16_of_nat)
qed

lemma base64EncodeUtf8_eq: "base64EncodeUtf8 s = Some (base64_text s)"
  by (simp add: base64EncodeUtf8_def bytesToBinaryString_eq btoa_binary base64_text_def)

lemma ucast_8_16_8: "(ucast (ucast (b :: byte) :: 16 word) :: byte) = b"
proof -
  have "unat (ucast (ucast b :: 16 word) :: byte) = unat b"
    using unat_byte_less [of b] by (simp add: unat_ucast_16_8 unat_ucast_byte16)
  then show ?thesis by (simp add: word_unat_eq_iff)
qed

lemma base64DecodeUtf8_base64_text:
  "base64DecodeUtf8 (base64_text s) = TextDecoder_utf8 True (TextEncoder_encode s)"
proof -
  let ?bs = "TextEncoder_encode s"
  have "\<forall>n \<in> set (map unat ?bs). n < 256" using unat_byte_less by auto
  then have "atob (base64_text s) = Some (map of_nat (map unat ?bs))"
    unfolding base64_text_def by (rule atob_b64_encode)
  moreover have "map ucast (map of_nat (map unat ?bs) :: jsstring) = ?bs"
    by (simp add: comp_def ucast_8_16_8)
  ultimately show ?thesis
    by (simp add: base64DecodeUtf8_def)
qed

lemma base64_round_trip:
  "well_formed s \<Longrightarrow> base64DecodeUtf8 (base64_text s) = Some (strip_bom s)"
  by (simp add: base64DecodeUtf8_base64_text TextDecoder_utf8_TextEncoder)

lemma encodeAscii_tEXt: "encodeAscii (lit ''tEXt'') = [116, 69, 88, 116]"
  by (simp add: encodeAscii_def TextEncoder_encode_def lit_def utf8_bytes_def
      high_surrogate_def low_surrogate_def)

lemma encodeAscii_chara: "encodeAscii (lit ''chara'') = [99, 104, 97, 114, 97]"
  by (simp add: encodeAscii_def TextEncoder_encode_def lit_def utf8_bytes_def
      high_surrogate_def low_surrogate_def)

lemma encodeAscii_ccv3: "encodeAscii (lit ''ccv3'') = [99, 99, 118, 51]"
  by (simp add: encodeAscii_def TextEncoder_encode_def lit_def utf8_bytes_def
      high_surrogate_def low_surrogate_def)

lemma decode_keyword_chara: "TextDecoder_utf8 False [99, 104, 97, 114, 97] = Some (lit ''chara'')"
  by (simp add: TextDecoder_utf8_def utf8_decoder.simps serialize_output_def from_scalars_def
      utf16_units_def lit_def)

lemma decode_keyword_ccv3: "TextDecoder_utf8 False [99, 99, 118, 51] = Some (lit ''ccv3'')"
  by (simp add: TextDecoder_utf8_def utf8_decoder.simps serialize_output_def from_scalars_def
      utf16_units_def lit_def)

lemma parse_chara:
  "parseTextChunkKeyword (99 # 104 # 97 # 114 # 97 # 0 # tb) =
     Some \<lparr>keyword = lit ''chara'', textBytes = tb\<rparr>"
  by (simp add: parseTextChunkKeyword_def slice_def decode_keyword_chara)

lemma parse_ccv3:
  "parseTextChunkKeyword (99 # 99 # 118 # 51 # 0 # tb) =
     Some \<lparr>keyword = lit ''ccv3'', textBytes = tb\<rparr>"
  by (simp add: parseTextChunkKeyword_def slice_def decode_keyword_ccv3)

lemma lit_chara_ne_ccv3: "lit ''chara'' \<noteq> lit ''ccv3''"
  by (simp add: lit_def)

lemma buildTextChunk_eq: "buildTextChunk kw b64 = chunk_bytes (text_chunk kw b64)"
  by (simp add: buildTextChunk_def chunk_bytes_def text_chunk_def concatBytes_def Let_def)




lemma text_chunk_has_keyword:
  "kw = lit ''chara'' \<or> kw = lit ''ccv3'' \<Longrightarrow>
   has_keyword kw' (text_chunk kw b64) \<longleftrightarrow> kw' = kw"
  by (auto simp add: has_keyword_def text_chunk_def encodeAscii_tEXt
      TextDecoder_ascii_tEXt encodeAscii_chara encodeAscii_ccv3 parse_chara parse_ccv3)



lemma card_of_text_chunk:
  assumes "kw = lit ''chara'' \<or> kw = lit ''ccv3''" and "well_formed s"
  shows "card_of_text (cdata (text_chunk kw (base64_text s))) =
         Inr (Some \<lparr>card_keyword = kw, jsonText = strip_bom s\<rparr>)"
proof -
  have "TextDecoder_ascii (encodeAscii (base64_text s)) = base64_text s"
    by (simp add: encodeAscii_def TextEncoder_encode_ascii [OF base64_text_ascii]
        TextDecoder_ascii_ucast [OF base64_text_ascii])
  with assms show ?thesis
    by (auto simp add: card_of_text_def text_chunk_def encodeAscii_chara encodeAscii_ccv3
        parse_chara parse_ccv3 base64_round_trip)
qed

subsection \<open>Extract and embed in terms of the chunk stream\<close>

lemma signature_ok_length: "\<not> signature_mismatch p \<Longrightarrow> 8 \<le> length p"
  by (auto simp add: signature_mismatch_iff dest: arg_cong [where f = length] simp: PNG_SIGNATURE_def)

lemma signature_ok_split: "\<not> signature_mismatch p \<Longrightarrow> p = PNG_SIGNATURE @ drop 8 p"
  by (metis append_take_drop_id signature_mismatch_iff)

lemma extractCardFromPng_scan:
  "\<not> signature_mismatch p \<Longrightarrow> extractCardFromPng p = scan (chunks p)"
  using signature_ok_length [of p]
  by (simp add: extractCardFromPng_def extract_loop_scan chunks_def)

lemma extractCardFromPng_not_png:
  "signature_mismatch p \<Longrightarrow> extractCardFromPng p = Inr None"
  by (simp add: extractCardFromPng_def)

lemma insertion_bytes:
  "(if opt_flag opts writeChara then [buildTextChunk (lit ''chara'') b64] else []) @
   (if opt_flag opts writeCcv3 then [buildTextChunk (lit ''ccv3'') b64] else []) =
   map chunk_bytes
     ((if opt_flag opts writeChara then [text_chunk (lit ''chara'') b64] else []) @
      (if opt_flag opts writeCcv3 then [text_chunk (lit ''ccv3'') b64] else []))"
  by (simp add: buildTextChunk_eq)

lemma embed_parts_eq:
  "embed_parts p s opts =
     (if signature_mismatch p then Inl NotAPng
      else if stream_end p = Overrun then Inl TruncatedPng
      else Inr (PNG_SIGNATURE # map chunk_bytes (emitted (insertion_set s opts) (chunks p))))"
  unfolding embed_parts_def base64EncodeUtf8_eq option.case insertion_bytes embed_loop_emitted
  by (simp add: stream_end_def chunks_def insertion_set_def)

lemma embedCardIntoPng_eq:
  "embedCardIntoPng p s opts =
     (if signature_mismatch p then Inl NotAPng
      else if stream_end p = Overrun then Inl TruncatedPng
      else Inr (PNG_SIGNATURE @
                concat (map chunk_bytes (emitted (insertion_set s opts) (chunks p)))))"
  by (simp add: embedCardIntoPng_def embed_parts_eq concatBytes_def)

lemma chunks_well_sized: "c \<in> set (chunks p) \<Longrightarrow> well_sized c"
  unfolding chunks_def by (rule walk_well_sized)





lemma scan_no_card: "\<forall>c \<in> set cs. \<not> is_card_chunk c \<Longrightarrow> scan cs = Inr None"
  by (induction cs) simp_all

lemma scan_first_card:
  "\<forall>x \<in> set cs. \<not> is_card_chunk x \<Longrightarrow> is_card_chunk c \<Longrightarrow>
   scan (cs @ c # rest) = card_of_text (cdata c)"
  by (induction cs) simp_all

lemma scan_skip:
  "\<not> is_card_chunk c \<Longrightarrow> scan (cs @ c # rest) = scan (cs @ rest)"
  by (induction cs) simp_all

lemma length_PNG_SIGNATURE: "length PNG_SIGNATURE = 8"
  by (simp add: PNG_SIGNATURE_def)

lemma signature_ok_prefix: "\<not> signature_mismatch (PNG_SIGNATURE @ rest)"
  by (simp add: signature_mismatch_iff length_PNG_SIGNATURE)

lemma kept_well_sized:
  "\<forall>c \<in> set (map with_fresh_crc (filter (\<lambda>c. \<not> is_card_chunk c) (chunks p))). well_sized c"
  using chunks_well_sized [of _ p] by (auto intro: well_sized_fresh)



lemma signature_ok_iff: "\<not> signature_mismatch p \<longleftrightarrow> take 8 p = PNG_SIGNATURE"
  by (simp add: signature_mismatch_iff)

lemmas walk_eval = walk.simps readUint32BE_def byte_at_def slice_def Let_def
  TextDecoder_ascii_IEND TextDecoder_ascii_tEXt PNG_SIGNATURE_def

lemmas chunk_eval = chunk_bytes_def is_card_chunk_def is_card_text_def is_iend_def
  with_fresh_crc_def writeUint32BE_def TextDecoder_ascii_IEND TextDecoder_ascii_tEXt

subsection \<open>Claims about the signature and the end of the stream\<close>

text \<open>
  C7. When the buffer does not begin with the eight bytes of the PNG signature (a
  buffer shorter than eight bytes included), \<^verbatim>\<open>extractCardFromPng\<close> returns
  \<^verbatim>\<open>null\<close>, the "not found" result, and throws nothing, while
  \<^verbatim>\<open>embedCardIntoPng\<close> throws its "not a PNG" error.
\<close>

theorem bad_signature:
  assumes "take 8 p \<noteq> PNG_SIGNATURE"
  shows "extractCardFromPng p = Inr None \<and> embedCardIntoPng p s opts = Inl NotAPng"
  using assms
  by (simp add: signature_ok_iff [symmetric] extractCardFromPng_not_png embedCardIntoPng_eq)

theorem bad_signature_witness:
  "take 8 [137, 80, 78] \<noteq> PNG_SIGNATURE \<and>
   extractCardFromPng [137, 80, 78] = Inr None \<and>
   embedCardIntoPng [137, 80, 78] (lit ''{}'') None = Inl NotAPng"
proof -
  have h: "take 8 [137, 80, 78] \<noteq> PNG_SIGNATURE"
    by (simp add: PNG_SIGNATURE_def)
  from bad_signature [OF h, of "lit ''{}''" None] h show ?thesis by simp
qed

text \<open>
  What \<^verbatim>\<open>embedCardIntoPng\<close> does when the chunk stream has no IEND chunk: it throws
  only when a chunk's declared length runs past the end of the buffer, and otherwise
  returns the signature followed by the chunks that are not card chunks, each with a
  fresh CRC field. Nothing of the insertion set is written.
\<close>

lemma embed_without_iend:
  assumes "take 8 p = PNG_SIGNATURE" and "\<forall>c \<in> set (chunks p). \<not> is_iend c"
  shows "embedCardIntoPng p s opts =
     (if stream_end p = Overrun then Inl TruncatedPng
      else Inr (PNG_SIGNATURE @ concat (map chunk_bytes
             (map with_fresh_crc (filter (\<lambda>c. \<not> is_card_chunk c) (chunks p))))))"
  using assms
  by (simp add: embedCardIntoPng_eq signature_ok_iff emitted_no_iend)

text \<open>
  C1. The claim: on a buffer that begins with the signature and has no IEND chunk,
  \<^verbatim>\<open>embedCardIntoPng\<close> fails with the truncated-PNG error and writes nothing of
  the insertion set. The code at such a buffer: the one below has the signature and a
  single IDAT chunk, and \<^verbatim>\<open>embedCardIntoPng\<close> returns it as it is, without a card
  and without an error.
\<close>

theorem embed_without_iend_returns:
  "take 8 (PNG_SIGNATURE @ [0, 0, 0, 0, 73, 68, 65, 84, 53, 175, 6, 30]) = PNG_SIGNATURE \<and>
   map ctype (chunks (PNG_SIGNATURE @ [0, 0, 0, 0, 73, 68, 65, 84, 53, 175, 6, 30])) =
     [[73, 68, 65, 84]] \<and>
   embedCardIntoPng (PNG_SIGNATURE @ [0, 0, 0, 0, 73, 68, 65, 84, 53, 175, 6, 30]) (lit ''{}'') None =
     Inr (PNG_SIGNATURE @ [0, 0, 0, 0, 73, 68, 65, 84, 53, 175, 6, 30])"
proof -
  let ?p = "PNG_SIGNATURE @ [0, 0, 0, 0, 73, 68, 65, 84, 53, 175, 6, 30]"
  have w: "walk ?p 8 =
    ([\<lparr>ctype = [73, 68, 65, 84], cdata = [], ccrc = [53, 175, 6, 30]\<rparr>], Exhausted)"
    by (simp add: walk_eval)
  have "embedCardIntoPng ?p (lit ''{}'') None = Inr ?p"
    by (simp add: embedCardIntoPng_eq signature_ok_prefix stream_end_def chunks_def w
        chunk_eval crc32_eval)
  with w show ?thesis
    by (simp add: chunks_def PNG_SIGNATURE_def)
qed

subsection \<open>Claims about the chunks of the output\<close>



lemma emitted_crc_ok: "\<forall>c \<in> set ins. crc_ok c \<Longrightarrow> \<forall>c \<in> set (emitted ins cs). crc_ok c"
  by (induction cs) auto





end
